theory Spec2Isabelle
  imports Main
begin

section \<open>ste::Timer (include/timer.hpp)\<close>

text \<open>
  The class template \<^verbatim>\<open>ste::Timer<Function>\<close> has four private members. The template
  parameter is a type variable; a callable is an opaque value of that type, and invoking
  it is an observable event. \<^verbatim>\<open>std::chrono::milliseconds\<close> is a signed tick count, on
  which the class does no arithmetic.
\<close>

record 'f Timer =
  m_stopped :: bool         \<comment> \<open>\<^verbatim>\<open>bool _stopped\<close>\<close>
  m_is_single_shot :: bool  \<comment> \<open>\<^verbatim>\<open>bool _is_single_shot\<close>\<close>
  m_ms_delay :: int         \<comment> \<open>\<^verbatim>\<open>std::chrono::milliseconds _ms_delay\<close>\<close>
  m_function :: 'f          \<comment> \<open>\<^verbatim>\<open>Function _function\<close>\<close>

subsection \<open>The two lambdas of \<^verbatim>\<open>on_run\<close>\<close>

text \<open>
  Both lambdas capture \<^verbatim>\<open>this\<close> (capture default \<^verbatim>\<open>[=]\<close>), so every member they
  mention is read from, or written to, the Timer object at the moment the statement
  runs. A program point is named after the source line of the statement that runs next:
  lines 217 to 221 are the single-shot lambda, lines 234 to 240 the repeating one.
  A call \<^verbatim>\<open>_function()\<close> has two points: the call itself, which reads the member and
  enters the callable, and the return from the callable.
\<close>

datatype pc =
    L217 | L218 | L219 | L220 | L220_ret | L221
  | L234 | L235 | L236 | L237 | L238 | L238_ret | L240
  | Exited

text \<open>What a statement does to the outside: a completed sleep, or the start of a call.\<close>

datatype 'f effect = Sleep_for int | Call 'f

fun lambda_step :: "'f Timer \<Rightarrow> pc \<Rightarrow> 'f Timer \<times> pc \<times> 'f effect option" where
  "lambda_step t L217 = (if m_stopped t then (t, Exited, None) else (t, L218, None))"
| "lambda_step t L218 = (t, L219, Some (Sleep_for (m_ms_delay t)))"
| "lambda_step t L219 = (if m_stopped t then (t, Exited, None) else (t, L220, None))"
| "lambda_step t L220 = (t, L220_ret, Some (Call (m_function t)))"
| "lambda_step t L220_ret = (t, L221, None)"
| "lambda_step t L221 = (t\<lparr>m_stopped := True\<rparr>, Exited, None)"
| "lambda_step t L234 = (if \<not> m_is_single_shot t then (t, L235, None) else (t, L240, None))"
| "lambda_step t L235 = (if m_stopped t then (t, Exited, None) else (t, L236, None))"
| "lambda_step t L236 = (t, L237, Some (Sleep_for (m_ms_delay t)))"
| "lambda_step t L237 = (if m_stopped t then (t, Exited, None) else (t, L238, None))"
| "lambda_step t L238 = (t, L238_ret, Some (Call (m_function t)))"
| "lambda_step t L238_ret = (t, L234, None)"
| "lambda_step t L240 = (t\<lparr>m_stopped := True\<rparr>, Exited, None)"
| "lambda_step t Exited = (t, Exited, None)"

subsection \<open>Objects, detached threads and the observable trace\<close>

text \<open>
  Timer objects live in a store indexed by address (\<^verbatim>\<open>this\<close>); destruction is not
  modelled. A detached thread is the address its lambda captured and its program point;
  its identifier is its position in the list of spawned threads. The trace lists the
  effects in the order they happened, each with the thread that produced it.
\<close>

type_synonym addr = nat

record 'f world =
  heap :: "addr \<Rightarrow> 'f Timer"
  threads :: "(addr \<times> pc) list"
  trace :: "(nat \<times> 'f effect) list"

subsection \<open>Constructor\<close>

text \<open>
  \<^verbatim>\<open>Timer(Function function, const milliseconds &_delay, const bool &single_shot = true)\<close>.
  The last argument is \<open>None\<close> when the call leaves it out.
\<close>

definition Timer_ctor :: "addr \<Rightarrow> 'f \<Rightarrow> int \<Rightarrow> bool option \<Rightarrow> 'f world \<Rightarrow> 'f world" where
  "Timer_ctor this function delay single_shot w =
     w\<lparr>heap := (heap w)(this :=
          \<lparr>m_stopped = True,
           m_is_single_shot = (case single_shot of None \<Rightarrow> True | Some b \<Rightarrow> b),
           m_ms_delay = delay,
           m_function = function\<rparr>)\<rparr>"

subsection \<open>Member functions\<close>

text \<open>
  A member function takes \<^verbatim>\<open>this\<close> and the world, and returns its result with the
  world it leaves. \<^verbatim>\<open>start\<close> and \<^verbatim>\<open>stop\<close> return \<^verbatim>\<open>*this\<close>, that is, the address.
\<close>

definition on_run :: "addr \<Rightarrow> 'f world \<Rightarrow> 'f world" where
  "on_run this w =
     (if m_is_single_shot (heap w this)
      then w\<lparr>threads := threads w @ [(this, L217)]\<rparr>
      else w\<lparr>threads := threads w @ [(this, L234)]\<rparr>)"

definition start :: "addr \<Rightarrow> 'f world \<Rightarrow> addr \<times> 'f world" where
  "start this w =
     (if m_stopped (heap w this)
      then (this, on_run this (w\<lparr>heap := (heap w)(this := (heap w this)\<lparr>m_stopped := False\<rparr>)\<rparr>))
      else (this, w))"

definition stop :: "addr \<Rightarrow> 'f world \<Rightarrow> addr \<times> 'f world" where
  "stop this w = (this, w\<lparr>heap := (heap w)(this := (heap w this)\<lparr>m_stopped := True\<rparr>)\<rparr>)"

definition stopped :: "addr \<Rightarrow> 'f world \<Rightarrow> bool \<times> 'f world" where
  "stopped this w = (m_stopped (heap w this), w)"

definition running :: "addr \<Rightarrow> 'f world \<Rightarrow> bool \<times> 'f world" where
  "running this w = (case stopped this w of (b, w') \<Rightarrow> (\<not> b, w'))"

text \<open>
  The accessors \<^verbatim>\<open>is_single_shot()\<close> and \<^verbatim>\<open>function()\<close> return a reference to the
  member: the \<^verbatim>\<open>const\<close> overload is a read, an assignment through the other overload
  is a write.
\<close>

definition is_single_shot_read :: "addr \<Rightarrow> 'f world \<Rightarrow> bool \<times> 'f world" where
  "is_single_shot_read this w = (m_is_single_shot (heap w this), w)"

definition is_single_shot_write :: "addr \<Rightarrow> bool \<Rightarrow> 'f world \<Rightarrow> 'f world" where
  "is_single_shot_write this b w =
     w\<lparr>heap := (heap w)(this := (heap w this)\<lparr>m_is_single_shot := b\<rparr>)\<rparr>"

definition function_read :: "addr \<Rightarrow> 'f world \<Rightarrow> 'f \<times> 'f world" where
  "function_read this w = (m_function (heap w this), w)"

definition function_write :: "addr \<Rightarrow> 'f \<Rightarrow> 'f world \<Rightarrow> 'f world" where
  "function_write this g w =
     w\<lparr>heap := (heap w)(this := (heap w this)\<lparr>m_function := g\<rparr>)\<rparr>"

subsection \<open>Interleaved executions\<close>

text \<open>
  One statement of one detached thread. A thread identifier that names no spawned
  thread does nothing.
\<close>

definition thread_step :: "nat \<Rightarrow> 'f world \<Rightarrow> 'f world" where
  "thread_step tid w =
     (if tid < length (threads w)
      then (case threads w ! tid of (this, p) \<Rightarrow>
              (case lambda_step (heap w this) p of (t', p', e) \<Rightarrow>
                 w\<lparr>heap := (heap w)(this := t'),
                   threads := (threads w)[tid := (this, p')],
                   trace := trace w @ (case e of None \<Rightarrow> [] | Some x \<Rightarrow> [(tid, x)])\<rparr>))
      else w)"

text \<open>
  An execution is a schedule: the calls made on Timer objects from outside the
  lambdas (each taken as one step) and the statements of the detached threads, in the
  order in which they happen. Statements are atomic and see each other's writes at
  once. What a callable does to a Timer while it runs is a call from outside, scheduled
  between the call and the return of line 220 or 238. A sleep is one step, taken when
  \<^verbatim>\<open>sleep_for\<close> returns; how long that takes is not modelled.
\<close>

datatype 'f action =
    Start addr
  | Stop addr
  | Set_single_shot addr bool
  | Set_function addr 'f
  | Step nat

fun perform :: "'f action \<Rightarrow> 'f world \<Rightarrow> 'f world" where
  "perform (Start this) w = snd (start this w)"
| "perform (Stop this) w = snd (stop this w)"
| "perform (Set_single_shot this b) w = is_single_shot_write this b w"
| "perform (Set_function this g) w = function_write this g w"
| "perform (Step tid) w = thread_step tid w"

fun exec :: "'f action list \<Rightarrow> 'f world \<Rightarrow> 'f world" where
  "exec [] w = w"
| "exec (a # as) w = exec as (perform a w)"

text \<open>The effects of one thread in a trace, and the callables it called.\<close>

definition effects_of :: "nat \<Rightarrow> (nat \<times> 'f effect) list \<Rightarrow> 'f effect list" where
  "effects_of tid tr = map snd (filter (\<lambda>x. fst x = tid) tr)"

fun is_call :: "'f effect \<Rightarrow> bool" where
  "is_call (Call f) = True"
| "is_call (Sleep_for d) = False"

definition calls_of :: "nat \<Rightarrow> (nat \<times> 'f effect) list \<Rightarrow> 'f effect list" where
  "calls_of tid tr = filter is_call (effects_of tid tr)"

text \<open>What a schedule added to the trace of the world it started from.\<close>

definition new_trace :: "'f world \<Rightarrow> 'f world \<Rightarrow> (nat \<times> 'f effect) list" where
  "new_trace w w' = drop (length (trace w)) (trace w')"

text \<open>The thread with a given identifier, if it was spawned.\<close>

definition thread_at :: "nat \<Rightarrow> 'f world \<Rightarrow> (addr \<times> pc) option" where
  "thread_at tid w = (if tid < length (threads w) then Some (threads w ! tid) else None)"

text \<open>
  The callables called, in order, in a piece of trace by the threads of one Timer.
\<close>

fun called :: "'f effect \<Rightarrow> 'f list" where
  "called (Call f) = [f]"
| "called (Sleep_for d) = []"

definition calls_on :: "addr \<Rightarrow> 'f world \<Rightarrow> (nat \<times> 'f effect) list \<Rightarrow> 'f list" where
  "calls_on this w tr =
     concat (map (\<lambda>(tid, e). if map_option fst (thread_at tid w) = Some this
                               then called e else []) tr)"

text \<open>
  One uninterrupted pass of a thread through its lambda takes six statements: in the
  single-shot lambda lines 217, 218, 219, the call and return of line 220, and line 221;
  in the repeating lambda lines 234 to 237 and the call and return of line 238.
\<close>

definition tick :: "nat \<Rightarrow> 'f action list" where
  "tick tid = [Step tid, Step tid, Step tid, Step tid, Step tid, Step tid]"

fun ticks :: "nat \<Rightarrow> nat \<Rightarrow> 'f action list" where
  "ticks 0 tid = []"
| "ticks (Suc k) tid = tick tid @ ticks k tid"

subsection \<open>Concrete worlds\<close>

text \<open>
  Callables are named by strings, as \<^verbatim>\<open>a_fun\<close> and \<^verbatim>\<open>b_fun\<close> of the header's example
  print \<^verbatim>\<open>A\<close> and \<^verbatim>\<open>B\<close>. \<open>blank_world\<close> has no thread and an empty trace;
  \<open>example_world\<close> holds at address 0 the Timer of the header's example, repeating
  every 1000 ms; \<open>single_world\<close> holds a Timer constructed without the third argument.
\<close>

definition blank_world :: "string world" where
  "blank_world =
     \<lparr>heap = (\<lambda>a. \<lparr>m_stopped = True, m_is_single_shot = True, m_ms_delay = 0,
                    m_function = []\<rparr>),
      threads = [], trace = []\<rparr>"

definition example_world :: "string world" where
  "example_world = Timer_ctor 0 ''A'' 1000 (Some False) blank_world"

definition single_world :: "string world" where
  "single_world = Timer_ctor 0 ''A'' 50 None blank_world"

text \<open>
  \<open>sleeping_world\<close>: the Timer of the example started, its thread in its first sleep.
  \<open>flip_world\<close>: the same after one full pass, the thread in its second sleep.
\<close>

definition sleeping_world :: "string world" where
  "sleeping_world = exec [Start 0, Step 0, Step 0] example_world"

definition flip_world :: "string world" where
  "flip_world = exec (Start 0 # ticks 1 0 @ [Step 0, Step 0]) example_world"

text \<open>
  \<open>racing_world\<close>: the Timer of the example started, its thread past the check that
  follows its first sleep and about to call.
\<close>

definition racing_world :: "string world" where
  "racing_world = exec [Start 0, Step 0, Step 0, Step 0, Step 0] example_world"

text \<open>
  \<open>in_flight_world\<close>: the Timer of the example started, its thread inside its second
  call of \<^verbatim>\<open>a_fun\<close>.
\<close>

definition in_flight_world :: "string world" where
  "in_flight_world =
     exec (Start 0 # ticks 1 0 @ [Step 0, Step 0, Step 0, Step 0, Step 0]) example_world"

text \<open>
  \<open>third_sleep_world\<close>: the header's example at the moment it replaces the callback,
  2100 ms after the start: two passes done, the thread in its third sleep.
\<close>

definition third_sleep_world :: "string world" where
  "third_sleep_world = exec (Start 0 # ticks 2 0 @ [Step 0, Step 0]) example_world"

subsection \<open>Measures on program points\<close>

text \<open>
  While the flag of its Timer stays set, a thread can still produce at most the effect
  of the statement it stands at: the end of the sleep at lines 218 and 236, the call at
  lines 220 and 238. Every other statement leads to an exit without a further effect.
\<close>

fun pending_effects :: "pc \<Rightarrow> nat" where
  "pending_effects L218 = 1"
| "pending_effects L220 = 1"
| "pending_effects L236 = 1"
| "pending_effects L238 = 1"
| "pending_effects _ = 0"

fun pending_calls :: "pc \<Rightarrow> nat" where
  "pending_calls L220 = 1"
| "pending_calls L238 = 1"
| "pending_calls _ = 0"

text \<open>
  While the mode of its Timer stays single-shot, a thread calls the callback at most
  once more, and it has exited after at most seven statements of its own: the longest
  way out is from line 235 through the rest of the pass, the loop test of line 234 and
  line 240.
\<close>

fun calls_before_exit :: "pc \<Rightarrow> nat" where
  "calls_before_exit L217 = 1"
| "calls_before_exit L218 = 1"
| "calls_before_exit L219 = 1"
| "calls_before_exit L220 = 1"
| "calls_before_exit L235 = 1"
| "calls_before_exit L236 = 1"
| "calls_before_exit L237 = 1"
| "calls_before_exit L238 = 1"
| "calls_before_exit _ = 0"

fun steps_to_exit :: "pc \<Rightarrow> nat" where
  "steps_to_exit L217 = 6"
| "steps_to_exit L218 = 5"
| "steps_to_exit L219 = 4"
| "steps_to_exit L220 = 3"
| "steps_to_exit L220_ret = 2"
| "steps_to_exit L221 = 1"
| "steps_to_exit L235 = 7"
| "steps_to_exit L236 = 6"
| "steps_to_exit L237 = 5"
| "steps_to_exit L238 = 4"
| "steps_to_exit L238_ret = 3"
| "steps_to_exit L234 = 2"
| "steps_to_exit L240 = 1"
| "steps_to_exit Exited = 0"

text \<open>
  The statements a thread in the repeating loop runs, left alone on a running repeating
  Timer, up to and including its next call of the callback.
\<close>

fun steps_to_call :: "pc \<Rightarrow> nat" where
  "steps_to_call L234 = 5"
| "steps_to_call L235 = 4"
| "steps_to_call L236 = 3"
| "steps_to_call L237 = 2"
| "steps_to_call L238 = 1"
| "steps_to_call L238_ret = 6"
| "steps_to_call _ = 0"

text \<open>
  The program points of the single-shot lambda, with the exit. A thread spawned in
  single-shot mode is always at one of them.
\<close>

fun in_single_shot_lambda :: "pc \<Rightarrow> bool" where
  "in_single_shot_lambda L234 = False"
| "in_single_shot_lambda L235 = False"
| "in_single_shot_lambda L236 = False"
| "in_single_shot_lambda L237 = False"
| "in_single_shot_lambda L238 = False"
| "in_single_shot_lambda L238_ret = False"
| "in_single_shot_lambda L240 = False"
| "in_single_shot_lambda _ = True"

text \<open>
  A schedule for \<open>single_world\<close> once started: the six statements of its thread, with
  writes to the mode in between.
\<close>

definition flipping_schedule :: "string action list" where
  "flipping_schedule =
     [Step 0, Set_single_shot 0 False, Step 0, Step 0, Set_single_shot 0 True,
      Set_single_shot 0 False, Step 0, Step 0, Step 0]"

section \<open>Basic facts\<close>

lemma Timer_stopped_True_id: "m_stopped t \<Longrightarrow> t\<lparr>m_stopped := True\<rparr> = t"
  by (cases t) simp

lemma heap_self_update: "w\<lparr>heap := (heap w)(a := heap w a)\<rparr> = w"
  by (cases w) simp

lemma thread_at_Some_iff:
  "thread_at tid w = Some x \<longleftrightarrow> tid < length (threads w) \<and> threads w ! tid = x"
  by (auto simp: thread_at_def)

lemma exec_append: "exec (as @ bs) w = exec bs (exec as w)"
  by (induction as arbitrary: w) simp_all

lemma trace_perform: "\<exists>xs. trace (perform a v) = trace v @ xs"
  by (cases a)
     (auto simp: start_def on_run_def stop_def is_single_shot_write_def function_write_def
                 thread_step_def split: prod.splits)

lemma trace_exec: "\<exists>xs. trace (exec as v) = trace v @ xs"
proof (induction as arbitrary: v)
  case Nil
  show ?case by simp
next
  case (Cons a as)
  obtain xs where "trace (perform a v) = trace v @ xs"
    using trace_perform by blast
  moreover obtain ys where "trace (exec as (perform a v)) = trace (perform a v) @ ys"
    using Cons.IH by blast
  ultimately show ?case by simp
qed

lemma new_trace_Cons:
  "new_trace v (exec (a # as) v) =
     new_trace v (perform a v) @ new_trace (perform a v) (exec as (perform a v))"
proof -
  obtain xs where xs: "trace (perform a v) = trace v @ xs"
    using trace_perform by blast
  obtain ys where ys: "trace (exec as (perform a v)) = trace (perform a v) @ ys"
    using trace_exec by blast
  show ?thesis by (simp add: new_trace_def xs ys)
qed

section \<open>Accessors\<close>

text \<open>
  C9. For every Timer state, \<^verbatim>\<open>running()\<close> returns true if and only if \<^verbatim>\<open>stopped()\<close>
  returns false, and neither accessor modifies anything: each leaves the world, hence
  every field of every Timer, as it found it.
\<close>

theorem running_iff_not_stopped:
  "fst (running this w) = (\<not> fst (stopped this w))
   \<and> snd (running this w) = w \<and> snd (stopped this w) = w"
  by (simp add: running_def stopped_def)

section \<open>Construction\<close>

text \<open>
  C5. The constructor yields a Timer in the stopped state (\<^verbatim>\<open>stopped()\<close> is true)
  that holds exactly the given callback, delay and mode, the mode being single-shot when
  the third argument is left out. Construction initialises the fields of the new object
  and nothing else: no thread is spawned, nothing is added to the trace, and every other
  object is untouched.
\<close>

theorem Timer_ctor_result:
  "fst (stopped this (Timer_ctor this f d ss w)) = True
   \<and> m_stopped (heap (Timer_ctor this f d ss w) this) = True
   \<and> m_function (heap (Timer_ctor this f d ss w) this) = f
   \<and> m_ms_delay (heap (Timer_ctor this f d ss w) this) = d
   \<and> m_is_single_shot (heap (Timer_ctor this f d (Some b) w) this) = b
   \<and> m_is_single_shot (heap (Timer_ctor this f d None w) this) = True
   \<and> threads (Timer_ctor this f d ss w) = threads w
   \<and> trace (Timer_ctor this f d ss w) = trace w
   \<and> (\<forall>a. a \<noteq> this \<longrightarrow> heap (Timer_ctor this f d ss w) a = heap w a)"
  by (simp add: Timer_ctor_def stopped_def)

theorem Timer_ctor_result_witness:
  "fst (stopped 0 example_world) = True
   \<and> m_function (heap example_world 0) = ''A''
   \<and> m_ms_delay (heap example_world 0) = 1000
   \<and> m_is_single_shot (heap example_world 0) = False
   \<and> m_is_single_shot (heap single_world 0) = True
   \<and> threads example_world = []
   \<and> trace example_world = []
   \<and> (1::nat) \<noteq> 0 \<and> heap example_world 1 = heap blank_world 1"
  using Timer_ctor_result [of 0 "''A''" 1000 "Some False" blank_world False]
  by (simp add: example_world_def single_world_def blank_world_def Timer_ctor_def)

section \<open>start and stop\<close>

text \<open>
  C3. \<^verbatim>\<open>start()\<close> is idempotent activation. On a stopped Timer it sets the flag to
  running and spawns exactly one thread, placed at the entry of the lambda chosen by the
  mode; nothing else changes. On a running Timer it changes nothing at all, so no second
  loop is spawned. In both cases it returns \<^verbatim>\<open>*this\<close>, the Timer is running
  afterwards, and a second \<^verbatim>\<open>start()\<close> in succession is a no-op.
\<close>

theorem start_idempotent_activation:
  "fst (start this w) = this
   \<and> (m_stopped (heap w this) \<longrightarrow>
        heap (snd (start this w)) = (heap w)(this := (heap w this)\<lparr>m_stopped := False\<rparr>)
      \<and> threads (snd (start this w)) =
          threads w @ [(this, if m_is_single_shot (heap w this) then L217 else L234)]
      \<and> trace (snd (start this w)) = trace w)
   \<and> (\<not> m_stopped (heap w this) \<longrightarrow> snd (start this w) = w)
   \<and> fst (running this (snd (start this w)))
   \<and> start this (snd (start this w)) = start this w"
  by (simp add: start_def on_run_def running_def stopped_def)

theorem start_idempotent_activation_witness:
  "fst (start 0 example_world) = 0
   \<and> m_stopped (heap example_world 0)
   \<and> \<not> m_stopped (heap (snd (start 0 example_world)) 0)
   \<and> threads (snd (start 0 example_world)) = [(0, L234)]
   \<and> threads (snd (start 0 single_world)) = [(0, L217)]
   \<and> trace (snd (start 0 example_world)) = []
   \<and> snd (start 0 (snd (start 0 example_world))) = snd (start 0 example_world)
   \<and> threads (snd (start 0 (snd (start 0 example_world)))) = [(0, L234)]"
  using start_idempotent_activation [of 0 example_world]
    start_idempotent_activation [of 0 single_world]
    start_idempotent_activation [of 0 "snd (start 0 example_world)"]
  by (simp add: example_world_def single_world_def blank_world_def Timer_ctor_def)

text \<open>
  C4. \<^verbatim>\<open>stop()\<close> sets the flag to stopped whatever the state and returns \<^verbatim>\<open>*this\<close>.
  It has no failure path: it is a total function with no error result. It leaves mode,
  delay and callback as they were, spawns no thread, adds nothing to the trace and
  touches no other object; on a Timer that is already stopped, which includes one that
  was never started, it changes nothing at all.
\<close>

theorem stop_unconditional:
  "fst (stop this w) = this
   \<and> fst (stopped this (snd (stop this w)))
   \<and> m_is_single_shot (heap (snd (stop this w)) this) = m_is_single_shot (heap w this)
   \<and> m_ms_delay (heap (snd (stop this w)) this) = m_ms_delay (heap w this)
   \<and> m_function (heap (snd (stop this w)) this) = m_function (heap w this)
   \<and> threads (snd (stop this w)) = threads w
   \<and> trace (snd (stop this w)) = trace w
   \<and> (\<forall>a. a \<noteq> this \<longrightarrow> heap (snd (stop this w)) a = heap w a)
   \<and> (m_stopped (heap w this) \<longrightarrow> snd (stop this w) = w)"
  by (simp add: stop_def stopped_def Timer_stopped_True_id heap_self_update)

theorem stop_unconditional_witness:
  "fst (stop 0 example_world) = 0
   \<and> m_stopped (heap example_world 0)
   \<and> snd (stop 0 example_world) = example_world
   \<and> fst (stopped 0 (snd (stop 0 (snd (start 0 example_world)))))
   \<and> (1::nat) \<noteq> 0
   \<and> heap (snd (stop 0 (snd (start 0 example_world)))) 1 = heap blank_world 1
   \<and> m_function (heap (snd (stop 0 (snd (start 0 example_world)))) 0) = ''A''"
  using stop_unconditional [of 0 example_world]
    stop_unconditional [of 0 "snd (start 0 example_world)"]
  by (simp add: example_world_def blank_world_def Timer_ctor_def start_def on_run_def)

section \<open>The single-shot loop\<close>

text \<open>
  C1. A Timer started in single-shot mode spawns a thread, numbered \<open>n\<close>, that checks
  the flag, sleeps for the delay, checks the flag again, calls the callback, sets the
  flag to stopped and exits. Left to run to its natural end, it has slept once for the
  delay, called the callback exactly once, and \<^verbatim>\<open>stopped()\<close> is true; the flag is set
  only after the call has returned, the Timer still running until then. A \<^verbatim>\<open>stop()\<close>
  before the first check makes the thread exit with no sleep and no call; a \<^verbatim>\<open>stop()\<close>
  during the sleep makes it exit at the second check with no call.
\<close>

theorem single_shot_loop:
  assumes "m_stopped (heap w this)" and "m_is_single_shot (heap w this)"
    and "n = length (threads w)"
  shows "exec (Start this # tick n) w =
           w\<lparr>threads := threads w @ [(this, Exited)],
             trace := trace w @ [(n, Sleep_for (m_ms_delay (heap w this))),
                                 (n, Call (m_function (heap w this)))]\<rparr>
    \<and> fst (stopped this (exec (Start this # tick n) w))
    \<and> exec [Start this, Step n, Step n, Step n, Step n, Step n] w =
           w\<lparr>heap := (heap w)(this := (heap w this)\<lparr>m_stopped := False\<rparr>),
             threads := threads w @ [(this, L221)],
             trace := trace w @ [(n, Sleep_for (m_ms_delay (heap w this))),
                                 (n, Call (m_function (heap w this)))]\<rparr>
    \<and> exec [Start this, Stop this, Step n] w = w\<lparr>threads := threads w @ [(this, Exited)]\<rparr>
    \<and> exec [Start this, Step n, Stop this, Step n, Step n] w =
           w\<lparr>threads := threads w @ [(this, Exited)],
             trace := trace w @ [(n, Sleep_for (m_ms_delay (heap w this)))]\<rparr>"
  using assms
  by (simp add: tick_def start_def on_run_def stop_def stopped_def thread_step_def nth_append
        Timer_stopped_True_id heap_self_update)

theorem single_shot_loop_witness:
  "m_stopped (heap single_world 0) \<and> m_is_single_shot (heap single_world 0)
   \<and> (0::nat) = length (threads single_world)
   \<and> trace (exec (Start 0 # tick 0) single_world) = [(0, Sleep_for 50), (0, Call ''A'')]
   \<and> threads (exec (Start 0 # tick 0) single_world) = [(0, Exited)]
   \<and> fst (stopped 0 (exec (Start 0 # tick 0) single_world))
   \<and> trace (exec [Start 0, Stop 0, Step 0] single_world) = []
   \<and> trace (exec [Start 0, Step 0, Stop 0, Step 0, Step 0] single_world) = [(0, Sleep_for 50)]"
  using single_shot_loop [of single_world 0 0]
  by (simp add: single_world_def blank_world_def Timer_ctor_def tick_def start_def on_run_def
        stop_def stopped_def thread_step_def)

section \<open>Invariants of interleaved executions\<close>

lemmas action_defs = start_def on_run_def stop_def is_single_shot_write_def function_write_def

lemmas eval_defs = example_world_def single_world_def blank_world_def Timer_ctor_def tick_def
  action_defs thread_step_def thread_at_def new_trace_def effects_of_def calls_of_def

lemma effects_of_append: "effects_of tid (xs @ ys) = effects_of tid xs @ effects_of tid ys"
  by (simp add: effects_of_def)

lemma calls_of_append: "calls_of tid (xs @ ys) = calls_of tid xs @ calls_of tid ys"
  by (simp add: calls_of_def effects_of_def)

subsection \<open>While the flag stays set\<close>

lemma stopped_step:
  assumes "m_stopped (heap v this)" and "thread_at tid v = Some (this, p)"
    and "a \<noteq> Start this"
  shows "\<exists>p'. m_stopped (heap (perform a v) this)
     \<and> thread_at tid (perform a v) = Some (this, p')
     \<and> length (effects_of tid (new_trace v (perform a v))) + pending_effects p'
         \<le> pending_effects p
     \<and> length (calls_of tid (new_trace v (perform a v))) + pending_calls p'
         \<le> pending_calls p"
proof (cases a)
  case (Step k)
  show ?thesis
  proof (cases "thread_at k v")
    case None
    then show ?thesis using assms Step
      by (auto simp: thread_step_def thread_at_def new_trace_def effects_of_def calls_of_def
               split: if_splits)
  next
    case (Some x)
    obtain that q where x: "x = (that, q)" by (cases x)
    show ?thesis using assms Step Some x
      by (cases q; cases "k = tid")
         (auto simp: thread_step_def thread_at_def new_trace_def effects_of_def calls_of_def
               split: if_splits)
  qed
qed (use assms in \<open>auto simp: action_defs thread_at_def new_trace_def effects_of_def
       calls_of_def nth_append split: if_splits\<close>)

lemma stopped_exec:
  assumes "m_stopped (heap v this)" and "thread_at tid v = Some (this, p)"
    and "Start this \<notin> set acts"
  shows "length (effects_of tid (new_trace v (exec acts v))) \<le> pending_effects p
     \<and> length (calls_of tid (new_trace v (exec acts v))) \<le> pending_calls p"
  using assms
proof (induction acts arbitrary: v p)
  case Nil
  show ?case by (simp add: new_trace_def effects_of_def calls_of_def)
next
  case (Cons a acts)
  from Cons.prems have a: "a \<noteq> Start this" and rest: "Start this \<notin> set acts"
    by auto
  from stopped_step [OF Cons.prems(1,2) a] obtain p' where
    s: "m_stopped (heap (perform a v) this)"
    and t: "thread_at tid (perform a v) = Some (this, p')"
    and e: "length (effects_of tid (new_trace v (perform a v))) + pending_effects p'
              \<le> pending_effects p"
    and c: "length (calls_of tid (new_trace v (perform a v))) + pending_calls p'
              \<le> pending_calls p"
    by blast
  from Cons.IH [OF s t rest] e c show ?case
    by (simp add: new_trace_Cons effects_of_append calls_of_append del: exec.simps)
qed

subsection \<open>While the mode stays single-shot\<close>

lemma single_shot_step:
  assumes "m_is_single_shot (heap v this)" and "thread_at tid v = Some (this, p)"
    and "a \<noteq> Set_single_shot this False"
  shows "\<exists>p'. m_is_single_shot (heap (perform a v) this)
     \<and> thread_at tid (perform a v) = Some (this, p')
     \<and> length (calls_of tid (new_trace v (perform a v))) + calls_before_exit p'
         \<le> calls_before_exit p
     \<and> steps_to_exit p' \<le> steps_to_exit p - (if a = Step tid then 1 else 0)"
proof (cases a)
  case (Step k)
  show ?thesis
  proof (cases "thread_at k v")
    case None
    then show ?thesis using assms Step
      by (auto simp: thread_step_def thread_at_def new_trace_def effects_of_def calls_of_def
               split: if_splits)
  next
    case (Some x)
    obtain that q where x: "x = (that, q)" by (cases x)
    show ?thesis using assms Step Some x
      by (cases q; cases "k = tid")
         (auto simp: thread_step_def thread_at_def new_trace_def effects_of_def calls_of_def
               split: if_splits)
  qed
qed (use assms in \<open>auto simp: action_defs thread_at_def new_trace_def effects_of_def
       calls_of_def nth_append split: if_splits\<close>)

lemma single_shot_exec:
  assumes "m_is_single_shot (heap v this)" and "thread_at tid v = Some (this, p)"
    and "Set_single_shot this False \<notin> set acts"
  shows "\<exists>p'. thread_at tid (exec acts v) = Some (this, p')
     \<and> length (calls_of tid (new_trace v (exec acts v))) \<le> calls_before_exit p
     \<and> steps_to_exit p' \<le> steps_to_exit p - count_list acts (Step tid)"
  using assms
proof (induction acts arbitrary: v p)
  case Nil
  then show ?case by (simp add: new_trace_def effects_of_def calls_of_def)
next
  case (Cons a acts)
  from Cons.prems have a: "a \<noteq> Set_single_shot this False"
    and rest: "Set_single_shot this False \<notin> set acts"
    by auto
  from single_shot_step [OF Cons.prems(1,2) a] obtain q where
    m: "m_is_single_shot (heap (perform a v) this)"
    and t: "thread_at tid (perform a v) = Some (this, q)"
    and c: "length (calls_of tid (new_trace v (perform a v))) + calls_before_exit q
              \<le> calls_before_exit p"
    and s: "steps_to_exit q \<le> steps_to_exit p - (if a = Step tid then 1 else 0)"
    by blast
  from Cons.IH [OF m t rest] obtain p' where
    t': "thread_at tid (exec acts (perform a v)) = Some (this, p')"
    and c': "length (calls_of tid (new_trace (perform a v) (exec acts (perform a v))))
              \<le> calls_before_exit q"
    and s': "steps_to_exit p' \<le> steps_to_exit q - count_list acts (Step tid)"
    by blast
  have "length (calls_of tid (new_trace v (exec (a # acts) v))) \<le> calls_before_exit p"
    using c c' by (simp add: new_trace_Cons calls_of_append del: exec.simps)
  moreover have "steps_to_exit p' \<le> steps_to_exit p - count_list (a # acts) (Step tid)"
    using s s' by (simp split: if_splits)
  ultimately show ?case using t' by simp
qed

subsection \<open>A thread that has exited leaves the flag set\<close>

lemma exit_step:
  assumes "thread_at tid v = Some (this, p)" and "p = Exited \<longrightarrow> m_stopped (heap v this)"
    and "a \<noteq> Start this"
  shows "\<exists>p'. thread_at tid (perform a v) = Some (this, p')
     \<and> (p' = Exited \<longrightarrow> m_stopped (heap (perform a v) this))"
proof (cases a)
  case (Step k)
  show ?thesis
  proof (cases "thread_at k v")
    case None
    then show ?thesis using assms Step
      by (auto simp: thread_step_def thread_at_def split: if_splits)
  next
    case (Some x)
    obtain that q where x: "x = (that, q)" by (cases x)
    show ?thesis using assms Step Some x
      by (cases q; cases "k = tid"; cases p)
         (auto simp: thread_step_def thread_at_def split: if_splits)
  qed
qed (use assms in \<open>auto simp: action_defs thread_at_def nth_append split: if_splits\<close>)

lemma exit_exec:
  assumes "thread_at tid v = Some (this, p)" and "p = Exited \<longrightarrow> m_stopped (heap v this)"
    and "Start this \<notin> set acts"
  shows "\<exists>p'. thread_at tid (exec acts v) = Some (this, p')
     \<and> (p' = Exited \<longrightarrow> m_stopped (heap (exec acts v) this))"
  using assms
proof (induction acts arbitrary: v p)
  case Nil
  then show ?case by simp
next
  case (Cons a acts)
  from Cons.prems have a: "a \<noteq> Start this" and rest: "Start this \<notin> set acts"
    by auto
  from exit_step [OF Cons.prems(1,2) a] obtain q where
    "thread_at tid (perform a v) = Some (this, q)"
    "q = Exited \<longrightarrow> m_stopped (heap (perform a v) this)"
    by blast
  from Cons.IH [OF this rest] show ?case by simp
qed


section \<open>The repeating loop\<close>

lemma repeating_tick:
  assumes "thread_at n v = Some (this, L234)" and "\<not> m_stopped (heap v this)"
    and "\<not> m_is_single_shot (heap v this)"
  shows "exec (tick n) v =
           v\<lparr>trace := trace v @ [(n, Sleep_for (m_ms_delay (heap v this))),
                                 (n, Call (m_function (heap v this)))]\<rparr>"
proof -
  from assms(1) have n: "n < length (threads v)" and t: "threads v ! n = (this, L234)"
    by (simp_all add: thread_at_def split: if_splits)
  have id: "(threads v)[n := (this, L234)] = threads v"
    using t by (metis list_update_id) 
  show ?thesis
    using assms(2,3) n t
    by (simp add: tick_def thread_step_def id)
qed

lemma repeating_ticks:
  assumes "thread_at n v = Some (this, L234)" and "\<not> m_stopped (heap v this)"
    and "\<not> m_is_single_shot (heap v this)"
  shows "exec (ticks k n) v =
           v\<lparr>trace := trace v @ concat (replicate k
                [(n, Sleep_for (m_ms_delay (heap v this))),
                 (n, Call (m_function (heap v this)))])\<rparr>"
  using assms
proof (induction k arbitrary: v)
  case 0
  show ?case by simp
next
  case (Suc k)
  let ?u = "exec (tick n) v"
  have u: "?u = v\<lparr>trace := trace v @ [(n, Sleep_for (m_ms_delay (heap v this))),
                                     (n, Call (m_function (heap v this)))]\<rparr>"
    by (rule repeating_tick [OF Suc.prems])
  have "thread_at n ?u = Some (this, L234)" "\<not> m_stopped (heap ?u this)"
      "\<not> m_is_single_shot (heap ?u this)"
    using Suc.prems by (simp_all add: u thread_at_Some_iff)
  from Suc.IH [OF this] show ?case
    by (simp add: exec_append u)
qed

lemma started_repeating:
  assumes "m_stopped (heap w this)" and "\<not> m_is_single_shot (heap w this)"
    and "n = length (threads w)"
  shows "exec (Start this # ticks k n) w =
           w\<lparr>heap := (heap w)(this := (heap w this)\<lparr>m_stopped := False\<rparr>),
             threads := threads w @ [(this, L234)],
             trace := trace w @ concat (replicate k
                [(n, Sleep_for (m_ms_delay (heap w this))),
                 (n, Call (m_function (heap w this)))])\<rparr>"
proof -
  let ?v = "snd (start this w)"
  have v: "?v = w\<lparr>heap := (heap w)(this := (heap w this)\<lparr>m_stopped := False\<rparr>),
                   threads := threads w @ [(this, L234)]\<rparr>"
    using assms by (simp add: start_def on_run_def)
  have "thread_at n ?v = Some (this, L234)" "\<not> m_stopped (heap ?v this)"
      "\<not> m_is_single_shot (heap ?v this)"
    using assms by (simp_all add: v thread_at_Some_iff)
  from repeating_ticks [OF this, of k] show ?thesis
    by (simp add: v)
qed



lemma repeating_exits:
  assumes "m_stopped (heap w this)" and "\<not> m_is_single_shot (heap w this)"
    and "n = length (threads w)" and "v = exec (Start this # ticks k n) w"
  shows "exec [Step n, Stop this, Step n] v =
           w\<lparr>threads := threads w @ [(this, Exited)], trace := trace v\<rparr>"
    and "exec [Step n, Step n, Stop this, Step n, Step n] v =
           w\<lparr>threads := threads w @ [(this, Exited)],
             trace := trace v @ [(n, Sleep_for (m_ms_delay (heap w this)))]\<rparr>"
    and "exec [Set_single_shot this True, Step n, Step n] v =
           w\<lparr>heap := (heap w)(this := (heap w this)\<lparr>m_is_single_shot := True\<rparr>),
             threads := threads w @ [(this, Exited)], trace := trace v\<rparr>"
proof -
  have v: "v = w\<lparr>heap := (heap w)(this := (heap w this)\<lparr>m_stopped := False\<rparr>),
             threads := threads w @ [(this, L234)],
             trace := trace w @ concat (replicate k
                [(n, Sleep_for (m_ms_delay (heap w this))),
                 (n, Call (m_function (heap w this)))])\<rparr>"
    using started_repeating [OF assms(1,2,3)] assms(4) by simp
  show "exec [Step n, Stop this, Step n] v =
           w\<lparr>threads := threads w @ [(this, Exited)], trace := trace v\<rparr>"
    using assms(1,2,3)
    by (simp add: v stop_def thread_step_def nth_append Timer_stopped_True_id heap_self_update)
  show "exec [Step n, Step n, Stop this, Step n, Step n] v =
           w\<lparr>threads := threads w @ [(this, Exited)],
             trace := trace v @ [(n, Sleep_for (m_ms_delay (heap w this)))]\<rparr>"
    using assms(1,2,3)
    by (simp add: v stop_def thread_step_def nth_append Timer_stopped_True_id heap_self_update)
  show "exec [Set_single_shot this True, Step n, Step n] v =
           w\<lparr>heap := (heap w)(this := (heap w this)\<lparr>m_is_single_shot := True\<rparr>),
             threads := threads w @ [(this, Exited)], trace := trace v\<rparr>"
    using assms(1,2,3)
    by (simp add: v is_single_shot_write_def thread_step_def nth_append Timer_stopped_True_id)
qed


lemma mode_flip:
  assumes "thread_at tid w = Some (this, p)"
    and "p \<in> {L234, L235, L236, L237, L238, L238_ret}"
    and "Set_single_shot this False \<notin> set acts"
    and "w' = exec acts (is_single_shot_write this True w)"
  shows "length (calls_of tid (new_trace (is_single_shot_write this True w) w')) \<le> 1"
    and "7 \<le> count_list acts (Step tid) \<Longrightarrow> thread_at tid w' = Some (this, Exited)"
    and "Start this \<notin> set acts \<Longrightarrow> thread_at tid w' = Some (this, Exited) \<Longrightarrow>
           m_stopped (heap w' this)"
proof -
  let ?v = "is_single_shot_write this True w"
  have m: "m_is_single_shot (heap ?v this)"
    by (simp add: is_single_shot_write_def)
  have t: "thread_at tid ?v = Some (this, p)"
    using assms(1) by (simp add: is_single_shot_write_def thread_at_Some_iff)
  from single_shot_exec [OF m t assms(3)] assms(4) obtain p' where
    t': "thread_at tid w' = Some (this, p')"
    and c: "length (calls_of tid (new_trace ?v w')) \<le> calls_before_exit p"
    and s: "steps_to_exit p' \<le> steps_to_exit p - count_list acts (Step tid)"
    by auto
  have "calls_before_exit p \<le> 1"
    by (cases p) simp_all
  with c show "length (calls_of tid (new_trace ?v w')) \<le> 1"
    by simp
  show "thread_at tid w' = Some (this, Exited)" if "7 \<le> count_list acts (Step tid)"
  proof -
    have "steps_to_exit p \<le> 7"
      by (cases p) simp_all
    with that s have "steps_to_exit p' = 0"
      by simp
    then have "p' = Exited"
      by (cases p') simp_all
    with t' show ?thesis by simp
  qed
  show "m_stopped (heap w' this)"
    if "Start this \<notin> set acts" and e: "thread_at tid w' = Some (this, Exited)"
  proof -
    have "p = Exited \<longrightarrow> m_stopped (heap ?v this)"
      using assms(2) by auto
    from exit_exec [OF t this that(1)] e assms(4) show ?thesis
      by auto
  qed
qed


text \<open>
  C2. A Timer started in repeating mode spawns a thread, numbered \<open>n\<close>, that repeats
  the pass: test the mode, check the flag, sleep for the delay, check the flag again,
  call the callback. After \<open>k\<close> uninterrupted passes it has slept and called \<open>k\<close>
  times and stands at the loop test again, the Timer still running. A \<^verbatim>\<open>stop()\<close>
  makes it exit at the next check, before the sleep or after it, with no further call.
  When the mode is flipped to single-shot the loop test fails, the thread sets the flag
  to stopped and exits.

  In any schedule at all that follows a flip to single-shot and does not flip the mode
  back, a thread found anywhere in the loop calls the callback at most once more; it has
  exited once it has run seven statements; and when it has exited and the Timer was not
  started again, \<^verbatim>\<open>stopped()\<close> is true.
\<close>

theorem repeating_loop:
  "(m_stopped (heap w this) \<and> \<not> m_is_single_shot (heap w this) \<and> n = length (threads w)
      \<and> v = exec (Start this # ticks k n) w \<longrightarrow>
      v = w\<lparr>heap := (heap w)(this := (heap w this)\<lparr>m_stopped := False\<rparr>),
            threads := threads w @ [(this, L234)],
            trace := trace w @ concat (replicate k
               [(n, Sleep_for (m_ms_delay (heap w this))),
                (n, Call (m_function (heap w this)))])\<rparr>
    \<and> exec [Step n, Stop this, Step n] v =
        w\<lparr>threads := threads w @ [(this, Exited)], trace := trace v\<rparr>
    \<and> exec [Step n, Step n, Stop this, Step n, Step n] v =
        w\<lparr>threads := threads w @ [(this, Exited)],
          trace := trace v @ [(n, Sleep_for (m_ms_delay (heap w this)))]\<rparr>
    \<and> exec [Set_single_shot this True, Step n, Step n] v =
        w\<lparr>heap := (heap w)(this := (heap w this)\<lparr>m_is_single_shot := True\<rparr>),
          threads := threads w @ [(this, Exited)], trace := trace v\<rparr>
    \<and> fst (running this v)
    \<and> fst (stopped this (exec [Set_single_shot this True, Step n, Step n] v)))
   \<and> (thread_at tid u = Some (this, p) \<and> p \<in> {L234, L235, L236, L237, L238, L238_ret}
        \<and> Set_single_shot this False \<notin> set acts
        \<and> u' = exec acts (is_single_shot_write this True u) \<longrightarrow>
      length (calls_of tid (new_trace (is_single_shot_write this True u) u')) \<le> 1
    \<and> (7 \<le> count_list acts (Step tid) \<longrightarrow> thread_at tid u' = Some (this, Exited))
    \<and> (Start this \<notin> set acts \<and> thread_at tid u' = Some (this, Exited) \<longrightarrow>
         m_stopped (heap u' this)))"
  (is "(?PA \<longrightarrow> ?C1 \<and> ?C2 \<and> ?C3 \<and> ?C4 \<and> ?C5 \<and> ?C6) \<and> (?PB \<longrightarrow> ?D1 \<and> ?D2 \<and> ?D3)")
proof (rule conjI; rule impI)
  assume ?PA
  then have 1: "m_stopped (heap w this)" and 2: "\<not> m_is_single_shot (heap w this)"
    and 3: "n = length (threads w)" and 4: "v = exec (Start this # ticks k n) w"
    by blast+
  have c1: ?C1 unfolding 4 by (rule started_repeating [OF 1 2 3])
  have c2: ?C2 by (rule repeating_exits(1) [OF 1 2 3 4])
  have c3: ?C3 by (rule repeating_exits(2) [OF 1 2 3 4])
  have c4: ?C4 by (rule repeating_exits(3) [OF 1 2 3 4])
  have c5: ?C5 by (subst c1) (simp add: running_def stopped_def)
  have c6: ?C6 by (subst c4) (simp add: stopped_def 1)
  from c1 c2 c3 c4 c5 c6 show "?C1 \<and> ?C2 \<and> ?C3 \<and> ?C4 \<and> ?C5 \<and> ?C6" by blast
next
  assume ?PB
  then have 1: "thread_at tid u = Some (this, p)"
    and 2: "p \<in> {L234, L235, L236, L237, L238, L238_ret}"
    and 3: "Set_single_shot this False \<notin> set acts"
    and 4: "u' = exec acts (is_single_shot_write this True u)"
    by blast+
  have ?D1 by (rule mode_flip(1) [OF 1 2 3 4])
  moreover have ?D2 using mode_flip(2) [OF 1 2 3 4] by blast
  moreover have ?D3 using mode_flip(3) [OF 1 2 3 4] by blast
  ultimately show "?D1 \<and> ?D2 \<and> ?D3" by blast
qed

theorem repeating_loop_witness:
  "m_stopped (heap example_world 0) \<and> \<not> m_is_single_shot (heap example_world 0)
   \<and> (0::nat) = length (threads example_world)
   \<and> trace (exec (Start 0 # ticks 2 0) example_world) =
        [(0, Sleep_for 1000), (0, Call ''A''), (0, Sleep_for 1000), (0, Call ''A'')]
   \<and> threads (exec (Start 0 # ticks 2 0) example_world) = [(0, L234)]
   \<and> fst (running 0 (exec (Start 0 # ticks 2 0) example_world))
   \<and> threads (exec [Set_single_shot 0 True, Step 0, Step 0]
        (exec (Start 0 # ticks 2 0) example_world)) = [(0, Exited)]
   \<and> fst (stopped 0 (exec [Set_single_shot 0 True, Step 0, Step 0]
        (exec (Start 0 # ticks 2 0) example_world)))
   \<and> thread_at 0 flip_world = Some (0, L236)
   \<and> L236 \<in> {L234, L235, L236, L237, L238, L238_ret}
   \<and> Set_single_shot 0 False \<notin> set (tick 0 @ [Step 0 :: string action])
   \<and> calls_of 0 (new_trace (is_single_shot_write 0 True flip_world)
        (exec (tick 0 @ [Step 0]) (is_single_shot_write 0 True flip_world))) = [Call ''A'']
   \<and> 7 \<le> count_list (tick 0 @ [Step 0 :: string action]) (Step 0)
   \<and> thread_at 0 (exec (tick 0 @ [Step 0]) (is_single_shot_write 0 True flip_world))
        = Some (0, Exited)
   \<and> Start 0 \<notin> set (tick 0 @ [Step 0 :: string action])
   \<and> m_stopped (heap (exec (tick 0 @ [Step 0]) (is_single_shot_write 0 True flip_world)) 0)"
  using repeating_loop [of example_world 0 0 "exec (Start 0 # ticks 2 0) example_world" 2
      0 flip_world L236 "tick 0 @ [Step 0]"
      "exec (tick 0 @ [Step 0]) (is_single_shot_write 0 True flip_world)"]
  by (simp add: flip_world_def eval_defs running_def stopped_def numeral_2_eq_2)

section \<open>stop() and the calls that follow it\<close>

text \<open>
  C7. Time is read off the trace: a delay interval has passed for a loop when one of its
  sleeps has ended. Take any thread of the Timer, at any program point \<open>p\<close>, at the
  moment \<^verbatim>\<open>stop()\<close> returns, and any schedule that follows in which the Timer is not
  started again. Then the thread produces at most one further effect: either the end of
  the sleep it was in, or the call it had already decided on, never a call after a sleep
  and never two calls; so no call begins once a delay interval has passed since the
  stop. The flag is checked again right after each sleep: unless the thread had already
  passed that check (it stood at the call of line 238 or 220), it calls nothing at all,
  in particular when the stop came during its sleep (\<open>p = L236\<close>).
\<close>

theorem stop_bounds_invocations:
  assumes "thread_at tid w = Some (this, p)" and "Start this \<notin> set acts"
    and "w' = exec acts (snd (stop this w))"
  shows "length (effects_of tid (new_trace (snd (stop this w)) w')) \<le> 1
    \<and> (p \<noteq> L238 \<and> p \<noteq> L220 \<longrightarrow> calls_of tid (new_trace (snd (stop this w)) w') = [])"
proof -
  let ?v = "snd (stop this w)"
  have s: "m_stopped (heap ?v this)"
    by (simp add: stop_def)
  have t: "thread_at tid ?v = Some (this, p)"
    using assms(1) by (simp add: stop_def thread_at_def split: if_splits)
  from stopped_exec [OF s t assms(2)] assms(3)
  have e: "length (effects_of tid (new_trace ?v w')) \<le> pending_effects p"
    and c: "length (calls_of tid (new_trace ?v w')) \<le> pending_calls p"
    by simp_all
  have "pending_effects p \<le> 1"
    by (cases p) simp_all
  with e have "length (effects_of tid (new_trace ?v w')) \<le> 1"
    by simp
  moreover have "calls_of tid (new_trace ?v w') = []" if "p \<noteq> L238" "p \<noteq> L220"
  proof -
    from that have "pending_calls p = 0"
      by (cases p) simp_all
    with c show ?thesis by simp
  qed
  ultimately show ?thesis by blast
qed

theorem stop_bounds_invocations_witness:
  "thread_at 0 sleeping_world = Some (0, L236)
   \<and> Start 0 \<notin> set (tick 0 :: string action list)
   \<and> effects_of 0 (new_trace (snd (stop 0 sleeping_world))
        (exec (tick 0) (snd (stop 0 sleeping_world)))) = [Sleep_for 1000]
   \<and> length (effects_of 0 (new_trace (snd (stop 0 sleeping_world))
        (exec (tick 0) (snd (stop 0 sleeping_world))))) \<le> 1
   \<and> L236 \<noteq> L238 \<and> L236 \<noteq> L220
   \<and> calls_of 0 (new_trace (snd (stop 0 sleeping_world))
        (exec (tick 0) (snd (stop 0 sleeping_world)))) = []
   \<and> thread_at 0 racing_world = Some (0, L238)
   \<and> effects_of 0 (new_trace (snd (stop 0 racing_world))
        (exec (tick 0) (snd (stop 0 racing_world)))) = [Call ''A'']
   \<and> thread_at 0 (exec (tick 0) (snd (stop 0 racing_world))) = Some (0, Exited)"
  using stop_bounds_invocations [of 0 sleeping_world 0 L236 "tick 0"
      "exec (tick 0) (snd (stop 0 sleeping_world))"]
    stop_bounds_invocations [of 0 racing_world 0 L238 "tick 0"
      "exec (tick 0) (snd (stop 0 racing_world))"]
  by (simp add: sleeping_world_def racing_world_def eval_defs)

text \<open>
  The condition that the Timer is not started again is needed. A \<^verbatim>\<open>start()\<close> that
  follows the \<^verbatim>\<open>stop()\<close> while the thread still sleeps clears the flag before the
  thread checks it: the thread goes on to call and to sleep again, beside the thread
  that the second \<^verbatim>\<open>start()\<close> spawned.
\<close>

lemma restart_during_sleep:
  "effects_of 0 (new_trace (snd (stop 0 sleeping_world))
      (exec (Start 0 # tick 0) (snd (stop 0 sleeping_world)))) = [Sleep_for 1000, Call ''A'']
   \<and> threads (exec (Start 0 # tick 0) (snd (stop 0 sleeping_world))) = [(0, L236), (0, L234)]"
  by (simp add: sleeping_world_def eval_defs)

section \<open>Replacing the callback\<close>

lemma thread_at_perform:
  assumes "thread_at tid v = Some (this, p)"
  shows "\<exists>p'. thread_at tid (perform a v) = Some (this, p')"
proof (cases a)
  case (Step k)
  show ?thesis
  proof (cases "thread_at k v")
    case None
    then show ?thesis using assms Step
      by (auto simp: thread_step_def thread_at_def split: if_splits)
  next
    case (Some x)
    obtain that q where x: "x = (that, q)" by (cases x)
    show ?thesis using assms Step Some x
      by (cases "k = tid")
         (auto simp: thread_step_def thread_at_def split: if_splits prod.splits)
  qed
qed (use assms in \<open>auto simp: action_defs thread_at_def nth_append split: if_splits\<close>)

lemma thread_at_exec:
  assumes "thread_at tid v = Some (this, p)"
  shows "\<exists>p'. thread_at tid (exec acts v) = Some (this, p')"
  using assms
proof (induction acts arbitrary: v p)
  case Nil
  then show ?case by simp
next
  case (Cons a acts)
  from thread_at_perform [OF Cons.prems] obtain q where
    "thread_at tid (perform a v) = Some (this, q)" by blast
  from Cons.IH [OF this] show ?case by simp
qed

lemma thread_addr_exec:
  assumes "thread_at tid v \<noteq> None"
  shows "map_option fst (thread_at tid (exec acts v)) = map_option fst (thread_at tid v)"
proof -
  from assms obtain this p where t: "thread_at tid v = Some (this, p)" by force
  from thread_at_exec [OF t] obtain p' where "thread_at tid (exec acts v) = Some (this, p')"
    by blast
  with t show ?thesis by simp
qed

lemma function_step:
  assumes "m_function (heap v this) = g" and "\<forall>h. a \<noteq> Set_function this h"
  shows "m_function (heap (perform a v) this) = g
     \<and> (\<forall>(tid, e) \<in> set (new_trace v (perform a v)).
           thread_at tid v \<noteq> None
         \<and> (map_option fst (thread_at tid v) = Some this \<longrightarrow> set (called e) \<subseteq> {g}))"
proof (cases a)
  case (Step k)
  show ?thesis
  proof (cases "thread_at k v")
    case None
    then show ?thesis using assms Step
      by (auto simp: thread_step_def thread_at_def new_trace_def split: if_splits)
  next
    case (Some x)
    obtain that q where x: "x = (that, q)" by (cases x)
    show ?thesis using assms Step Some x
      by (cases q)
         (auto simp: thread_step_def thread_at_def new_trace_def split: if_splits)
  qed
qed (use assms in \<open>auto simp: action_defs new_trace_def\<close>)


lemma calls_on_append:
  "calls_on this w (xs @ ys) = calls_on this w xs @ calls_on this w ys"
  by (simp add: calls_on_def)

lemma calls_on_Cons:
  "calls_on this w ((tid, e) # tr) =
     (if map_option fst (thread_at tid w) = Some this then called e else [])
     @ calls_on this w tr"
  by (simp add: calls_on_def)

lemma calls_on_subset:
  assumes "\<And>tid e. (tid, e) \<in> set tr \<Longrightarrow> map_option fst (thread_at tid w) = Some this \<Longrightarrow>
             set (called e) \<subseteq> S"
  shows "set (calls_on this w tr) \<subseteq> S"
  using assms
proof (induction tr)
  case Nil
  show ?case by (simp add: calls_on_def)
next
  case (Cons x tr)
  obtain tid e where x: "x = (tid, e)" by (cases x)
  have "set (calls_on this w tr) \<subseteq> S"
  proof (rule Cons.IH)
    fix k d
    assume "(k, d) \<in> set tr" and "map_option fst (thread_at k w) = Some this"
    then show "set (called d) \<subseteq> S"
      using Cons.prems [of k d] by simp
  qed
  moreover have "set (called e) \<subseteq> S" if "map_option fst (thread_at tid w) = Some this"
    using Cons.prems [of tid e] that x by simp
  ultimately show ?case
    by (auto simp: x calls_on_Cons)
qed

lemma function_exec:
  assumes "m_function (heap v this) = g" and "\<forall>h. Set_function this h \<notin> set acts"
  shows "set (calls_on this (exec acts v) (new_trace v (exec acts v))) \<subseteq> {g}"
  using assms
proof (induction acts arbitrary: v)
  case Nil
  show ?case by (simp add: new_trace_def calls_on_def)
next
  case (Cons a acts)
  let ?u = "perform a v" and ?w = "exec acts (perform a v)"
  from Cons.prems have a: "\<forall>h. a \<noteq> Set_function this h"
    and rest: "\<forall>h. Set_function this h \<notin> set acts"
    by auto
  from function_step [OF Cons.prems(1) a]
  have g: "m_function (heap ?u this) = g"
    and new: "\<And>tid e. (tid, e) \<in> set (new_trace v ?u) \<Longrightarrow> thread_at tid v \<noteq> None
         \<and> (map_option fst (thread_at tid v) = Some this \<longrightarrow> set (called e) \<subseteq> {g})"
    by auto
  have "set (calls_on this ?w (new_trace v ?u)) \<subseteq> {g}"
  proof (rule calls_on_subset)
    fix tid e
    assume m: "(tid, e) \<in> set (new_trace v ?u)"
      and t: "map_option fst (thread_at tid ?w) = Some this"
    from new [OF m] have "thread_at tid v \<noteq> None" by simp
    from thread_addr_exec [OF this, of "a # acts"] t
    have "map_option fst (thread_at tid v) = Some this" by simp
    with new [OF m] show "set (called e) \<subseteq> {g}" by simp
  qed
  moreover have "set (calls_on this ?w (new_trace ?u ?w)) \<subseteq> {g}"
    using Cons.IH [OF g rest] by simp
  moreover have "new_trace v ?w = new_trace v ?u @ new_trace ?u ?w"
    using new_trace_Cons [of v a acts] by simp
  ultimately show ?case
    by (simp add: calls_on_append)
qed

lemma next_call_after_write:
  assumes "thread_at n w = Some (this, p)"
    and "p \<in> {L234, L235, L236, L237, L238, L238_ret}"
    and "\<not> m_stopped (heap w this)" and "\<not> m_is_single_shot (heap w this)"
    and "w' = exec (replicate (steps_to_call p) (Step n)) (function_write this g w)"
  shows "new_trace (function_write this g w) w' =
           (if p = L237 \<or> p = L238 then [] else [(n, Sleep_for (m_ms_delay (heap w this)))])
           @ [(n, Call g)]"
    and "thread_at n w' = Some (this, L238_ret)"
proof -
  from assms(1) have n: "n < length (threads w)" and t: "threads w ! n = (this, p)"
    by (simp_all add: thread_at_Some_iff)
  from assms(2) consider "p = L234" | "p = L235" | "p = L236" | "p = L237" | "p = L238"
    | "p = L238_ret"
    by auto
  then have "new_trace (function_write this g w) w' =
           (if p = L237 \<or> p = L238 then [] else [(n, Sleep_for (m_ms_delay (heap w this)))])
           @ [(n, Call g)] \<and> thread_at n w' = Some (this, L238_ret)"
    using n t assms(3,4,5)
    by cases
       (simp_all add: numeral_eq_Suc function_write_def thread_step_def new_trace_def
          thread_at_Some_iff)
  then show "new_trace (function_write this g w) w' =
           (if p = L237 \<or> p = L238 then [] else [(n, Sleep_for (m_ms_delay (heap w this)))])
           @ [(n, Call g)]"
    and "thread_at n w' = Some (this, L238_ret)"
    by blast+
qed

text \<open>
  C6, as the code has it. The lambda reads \<^verbatim>\<open>_function\<close> when it makes the call,
  line 238, after the sleep and the checks of the same pass. Replace the callback through
  \<^verbatim>\<open>function()\<close> at any moment, and let any schedule follow that does not replace it
  again: what the trace already held is left as it was, so a call that had already begun
  stays a call of the old callable, and every call that a thread of this Timer begins
  afterwards is a call of the new callable. On a running repeating Timer the loop does
  make that call: a thread at any point \<open>p\<close> of the loop, left to run, sleeps if its
  pass has not slept yet and then calls the new callable, whatever the pass it is in. So
  a replacement that lands before the call of a pass, during its sleep for one, makes
  that same pass call the new callable; only one that lands during the call itself
  leaves the pass in flight with the old callable.
\<close>

theorem callback_replacement:
  "((\<forall>h. Set_function this h \<notin> set acts) \<and> w' = exec acts (function_write this g w) \<longrightarrow>
      trace w' = trace w @ new_trace (function_write this g w) w'
    \<and> (\<forall>f \<in> set (calls_on this w' (new_trace (function_write this g w) w')). f = g))
   \<and> (thread_at n u = Some (this, p) \<and> p \<in> {L234, L235, L236, L237, L238, L238_ret}
        \<and> \<not> m_stopped (heap u this) \<and> \<not> m_is_single_shot (heap u this)
        \<and> u' = exec (replicate (steps_to_call p) (Step n)) (function_write this g u) \<longrightarrow>
      new_trace (function_write this g u) u' =
        (if p = L237 \<or> p = L238 then [] else [(n, Sleep_for (m_ms_delay (heap u this)))])
        @ [(n, Call g)]
    \<and> thread_at n u' = Some (this, L238_ret))"
  (is "(?PA \<longrightarrow> ?C1 \<and> ?C2) \<and> (?PB \<longrightarrow> ?D1 \<and> ?D2)")
proof (rule conjI; rule impI)
  assume ?PA
  then have 1: "\<forall>h. Set_function this h \<notin> set acts"
    and 2: "w' = exec acts (function_write this g w)"
    by blast+
  let ?v = "function_write this g w"
  have "m_function (heap ?v this) = g"
    by (simp add: function_write_def)
  from function_exec [OF this 1] 2 have c2: ?C2
    by auto
  obtain xs where "trace w' = trace ?v @ xs"
    using trace_exec 2 by blast
  then have c1: ?C1
    by (simp add: new_trace_def function_write_def)
  from c1 c2 show "?C1 \<and> ?C2" by blast
next
  assume ?PB
  then have 1: "thread_at n u = Some (this, p)"
    and 2: "p \<in> {L234, L235, L236, L237, L238, L238_ret}"
    and 3: "\<not> m_stopped (heap u this)" and 4: "\<not> m_is_single_shot (heap u this)"
    and 5: "u' = exec (replicate (steps_to_call p) (Step n)) (function_write this g u)"
    by blast+
  have ?D1 by (rule next_call_after_write(1) [OF 1 2 3 4 5])
  moreover have ?D2 by (rule next_call_after_write(2) [OF 1 2 3 4 5])
  ultimately show "?D1 \<and> ?D2" by blast
qed

theorem callback_replacement_witness:
  "(\<forall>h. Set_function 0 h \<notin> set (Step 0 # ticks 2 0))
   \<and> thread_at 0 in_flight_world = Some (0, L238_ret)
   \<and> trace in_flight_world =
        [(0, Sleep_for 1000), (0, Call ''A''), (0, Sleep_for 1000), (0, Call ''A'')]
   \<and> trace (exec (Step 0 # ticks 2 0) (function_write 0 ''B'' in_flight_world)) =
        [(0, Sleep_for 1000), (0, Call ''A''), (0, Sleep_for 1000), (0, Call ''A''),
         (0, Sleep_for 1000), (0, Call ''B''), (0, Sleep_for 1000), (0, Call ''B'')]
   \<and> calls_on 0 (exec (Step 0 # ticks 2 0) (function_write 0 ''B'' in_flight_world))
        (new_trace (function_write 0 ''B'' in_flight_world)
           (exec (Step 0 # ticks 2 0) (function_write 0 ''B'' in_flight_world)))
      = [''B'', ''B'']
   \<and> thread_at 0 third_sleep_world = Some (0, L236)
   \<and> L236 \<in> {L234, L235, L236, L237, L238, L238_ret}
   \<and> \<not> m_stopped (heap third_sleep_world 0)
   \<and> \<not> m_is_single_shot (heap third_sleep_world 0)
   \<and> steps_to_call L236 = 3
   \<and> new_trace (function_write 0 ''B'' third_sleep_world)
        (exec (replicate 3 (Step 0)) (function_write 0 ''B'' third_sleep_world)) =
      [(0, Sleep_for 1000), (0, Call ''B'')]
   \<and> thread_at 0 (exec (replicate 3 (Step 0)) (function_write 0 ''B'' third_sleep_world))
        = Some (0, L238_ret)"
  using callback_replacement [of 0 "Step 0 # ticks 2 0"
      "exec (Step 0 # ticks 2 0) (function_write 0 ''B'' in_flight_world)" "''B''"
      in_flight_world 0 third_sleep_world L236
      "exec (replicate 3 (Step 0)) (function_write 0 ''B'' third_sleep_world)"]
  by (simp add: in_flight_world_def third_sleep_world_def eval_defs calls_on_def
        numeral_2_eq_2 numeral_3_eq_3)

text \<open>
  The specification's property P6, that the tick in flight at the replacement still
  calls the old callable, fails when the replacement lands during the sleep of that tick. In the
  header's example the callback is replaced 2100 ms after the start, in the third sleep,
  the first two passes having called \<^verbatim>\<open>a_fun\<close>; the pass in flight then ends its sleep
  and calls \<^verbatim>\<open>b_fun\<close>, which is the third line of the output the header gives.
\<close>

theorem callback_replacement_counterexample:
  "thread_at 0 third_sleep_world = Some (0, L236)
   \<and> calls_of 0 (trace third_sleep_world) = [Call ''A'', Call ''A'']
   \<and> m_function (heap third_sleep_world 0) = ''A''
   \<and> new_trace (function_write 0 ''B'' third_sleep_world)
        (exec [Step 0, Step 0, Step 0] (function_write 0 ''B'' third_sleep_world)) =
      [(0, Sleep_for 1000), (0, Call ''B'')]
   \<and> Call ''B'' \<noteq> Call ''A''"
  by (simp add: third_sleep_world_def eval_defs numeral_2_eq_2)

section \<open>The single-shot loop and the mode\<close>

lemma lambda_step_mode:
  "in_single_shot_lambda p \<Longrightarrow>
     lambda_step (t\<lparr>m_is_single_shot := b\<rparr>) p =
       (case lambda_step t p of (t', p', e) \<Rightarrow> (t'\<lparr>m_is_single_shot := b\<rparr>, p', e))"
  by (cases p) simp_all

lemma single_lambda_step:
  assumes "thread_at tid v = Some (this, p)" and "in_single_shot_lambda p"
  shows "\<exists>p'. thread_at tid (perform a v) = Some (this, p') \<and> in_single_shot_lambda p'
     \<and> length (calls_of tid (new_trace v (perform a v))) + calls_before_exit p'
         \<le> calls_before_exit p"
proof (cases a)
  case (Step k)
  show ?thesis
  proof (cases "thread_at k v")
    case None
    then show ?thesis using assms Step
      by (auto simp: thread_step_def thread_at_def new_trace_def effects_of_def calls_of_def
               split: if_splits)
  next
    case (Some x)
    obtain that q where x: "x = (that, q)" by (cases x)
    show ?thesis using assms Step Some x
      by (cases q; cases "k = tid")
         (auto simp: thread_step_def thread_at_def new_trace_def effects_of_def calls_of_def
               split: if_splits)
  qed
qed (use assms in \<open>auto simp: action_defs thread_at_def new_trace_def effects_of_def
       calls_of_def nth_append split: if_splits\<close>)

lemma single_lambda_exec:
  assumes "thread_at tid v = Some (this, p)" and "in_single_shot_lambda p"
  shows "\<exists>p'. thread_at tid (exec acts v) = Some (this, p') \<and> in_single_shot_lambda p'
     \<and> length (calls_of tid (new_trace v (exec acts v))) \<le> calls_before_exit p"
  using assms
proof (induction acts arbitrary: v p)
  case Nil
  then show ?case by (simp add: new_trace_def effects_of_def calls_of_def)
next
  case (Cons a acts)
  from single_lambda_step [OF Cons.prems] obtain q where
    t: "thread_at tid (perform a v) = Some (this, q)" and i: "in_single_shot_lambda q"
    and c: "length (calls_of tid (new_trace v (perform a v))) + calls_before_exit q
              \<le> calls_before_exit p"
    by blast
  from Cons.IH [OF t i] obtain p' where
    "thread_at tid (exec acts (perform a v)) = Some (this, p')" "in_single_shot_lambda p'"
    and c': "length (calls_of tid (new_trace (perform a v) (exec acts (perform a v))))
              \<le> calls_before_exit q"
    by blast
  moreover have "length (calls_of tid (new_trace v (exec (a # acts) v))) \<le> calls_before_exit p"
    using c c' by (simp add: new_trace_Cons calls_of_append del: exec.simps)
  ultimately show ?case by simp
qed

lemma Timer_update_swap:
  "t\<lparr>m_is_single_shot := b, m_stopped := s\<rparr> = t\<lparr>m_stopped := s, m_is_single_shot := b\<rparr>"
  by (cases t) simp

lemma world_update_swap:
  "v\<lparr>heap := h, threads := ts\<rparr> = v\<lparr>threads := ts, heap := h\<rparr>"
  by (cases v) simp

lemma thread_step_mode:
  assumes "thread_at n v = Some (this, p)" and "in_single_shot_lambda p"
  shows "thread_step n (is_single_shot_write this b v) =
           is_single_shot_write this b (thread_step n v)"
  using assms
  by (cases p)
     (simp_all add: thread_step_def is_single_shot_write_def thread_at_Some_iff
        Timer_update_swap world_update_swap)

lemma mode_write_write:
  "is_single_shot_write this b (is_single_shot_write this c v) = is_single_shot_write this b v"
  by (simp add: is_single_shot_write_def)

lemma mode_write_same:
  "is_single_shot_write this (m_is_single_shot (heap v this)) v = v"
  by (simp add: is_single_shot_write_def heap_self_update)


lemma exec_mode_independent:
  assumes "thread_at n v = Some (this, p)" and "in_single_shot_lambda p"
    and "\<forall>a \<in> set acts. a = Step n \<or> (\<exists>b. a = Set_single_shot this b)"
  shows "\<exists>b. exec acts (is_single_shot_write this c v) =
           is_single_shot_write this b (exec (filter (\<lambda>a. a = Step n) acts) v)"
  using assms
proof (induction acts arbitrary: v p c)
  case Nil
  show ?case by auto
next
  case (Cons a acts)
  from Cons.prems(3) have rest: "\<forall>a \<in> set acts. a = Step n \<or> (\<exists>b. a = Set_single_shot this b)"
    and a: "a = Step n \<or> (\<exists>b. a = Set_single_shot this b)"
    by simp_all
  from a show ?case
  proof
    assume s: "a = Step n"
    from single_lambda_step [OF Cons.prems(1,2), of a] s obtain q where
      t: "thread_at n (thread_step n v) = Some (this, q)" and i: "in_single_shot_lambda q"
      by auto
    from Cons.IH [OF t i rest, of c] show ?thesis
      by (simp add: s thread_step_mode [OF Cons.prems(1,2)])
  next
    assume "\<exists>b. a = Set_single_shot this b"
    then obtain b where s: "a = Set_single_shot this b" by blast
    from Cons.IH [OF Cons.prems(1,2) rest, of b] show ?thesis
      by (simp add: s mode_write_write)
  qed
qed

lemma exited_steps:
  assumes "thread_at n v = Some (this, Exited)"
  shows "exec (replicate k (Step n)) v = v"
proof -
  have "thread_step n v = v"
    using assms
    by (simp add: thread_step_def thread_at_Some_iff heap_self_update list_update_same_conv)
  then show ?thesis
    by (induction k) simp_all
qed

lemma filter_steps: "filter (\<lambda>a. a = Step n) acts = replicate (count_list acts (Step n)) (Step n)"
  by (induction acts) simp_all

lemma single_shot_run:
  assumes "m_stopped (heap w this)" and "m_is_single_shot (heap w this)"
    and "n = length (threads w)" and "6 \<le> k"
  shows "exec (replicate k (Step n)) (snd (start this w)) =
           w\<lparr>threads := threads w @ [(this, Exited)],
             trace := trace w @ [(n, Sleep_for (m_ms_delay (heap w this))),
                                 (n, Call (m_function (heap w this)))]\<rparr>"
proof -
  let ?f = "w\<lparr>threads := threads w @ [(this, Exited)],
             trace := trace w @ [(n, Sleep_for (m_ms_delay (heap w this))),
                                 (n, Call (m_function (heap w this)))]\<rparr>"
  have six: "exec (tick n) (snd (start this w)) = ?f"
    using assms(1,2,3)
    by (simp add: tick_def start_def on_run_def thread_step_def nth_append
          Timer_stopped_True_id heap_self_update)
  have "thread_at n ?f = Some (this, Exited)"
    using assms(3) by (simp add: thread_at_Some_iff)
  from exited_steps [OF this, of "k - 6"] have rest: "exec (replicate (k - 6) (Step n)) ?f = ?f" .
  have "replicate k (Step n) = tick n @ replicate (k - 6) (Step n)"
  proof -
    have "tick n = replicate 6 (Step n)"
      by (simp add: tick_def numeral_eq_Suc)
    moreover have "k = 6 + (k - 6)" using assms(4) by simp
    ultimately show ?thesis
      by (metis replicate_add)
  qed
  then show ?thesis
    by (metis exec_append six rest)
qed


text \<open>
  C10. No statement of the single-shot lambda reads \<^verbatim>\<open>_is_single_shot\<close>: a statement
  run on a Timer whose mode was overwritten does what it does on the original, the mode
  apart; only the loop test of line 234, in the repeating lambda, depends on the mode.
  So for a Timer started in single-shot mode, whatever happens afterwards, the spawned
  thread stays in the single-shot lambda and calls the callback at most once. When only
  that thread and writes to the mode (through \<^verbatim>\<open>is_single_shot()\<close>, to either value)
  are scheduled, the outcome is the one of the schedule with the writes removed, the mode
  field apart; and once the thread has run its six statements it has slept once, called
  the callback once, set the flag to stopped and exited.
\<close>

theorem single_shot_ignores_mode:
  assumes "m_stopped (heap w this)" and "m_is_single_shot (heap w this)"
    and "n = length (threads w)" and "w' = exec acts (snd (start this w))"
  shows "(\<exists>p. thread_at n w' = Some (this, p) \<and> in_single_shot_lambda p)
    \<and> length (calls_of n (new_trace (snd (start this w)) w')) \<le> 1
    \<and> ((\<forall>a \<in> set acts. a = Step n \<or> (\<exists>b. a = Set_single_shot this b)) \<longrightarrow>
         (\<exists>b. w' = is_single_shot_write this b
                 (exec (filter (\<lambda>a. a = Step n) acts) (snd (start this w)))))
    \<and> ((\<forall>a \<in> set acts. a = Step n \<or> (\<exists>b. a = Set_single_shot this b))
          \<and> 6 \<le> count_list acts (Step n) \<longrightarrow>
         thread_at n w' = Some (this, Exited) \<and> m_stopped (heap w' this)
         \<and> trace w' = trace w @ [(n, Sleep_for (m_ms_delay (heap w this))),
                                   (n, Call (m_function (heap w this)))])
    \<and> (\<forall>t b p. in_single_shot_lambda p \<longrightarrow>
          lambda_step (t\<lparr>m_is_single_shot := b\<rparr>) p =
            (case lambda_step t p of (t', p', e) \<Rightarrow> (t'\<lparr>m_is_single_shot := b\<rparr>, p', e)))
    \<and> (\<forall>t. fst (snd (lambda_step (t\<lparr>m_is_single_shot := True\<rparr>) L234)) = L240
          \<and> fst (snd (lambda_step (t\<lparr>m_is_single_shot := False\<rparr>) L234)) = L235)"
  (is "?A \<and> ?B \<and> (?H \<longrightarrow> ?C) \<and> (?H \<and> ?K \<longrightarrow> ?D) \<and> ?E \<and> ?F")
proof -
  let ?v = "snd (start this w)"
  have v: "?v = w\<lparr>heap := (heap w)(this := (heap w this)\<lparr>m_stopped := False\<rparr>),
                   threads := threads w @ [(this, L217)]\<rparr>"
    using assms(1,2) by (simp add: start_def on_run_def)
  have t: "thread_at n ?v = Some (this, L217)"
    using assms(3) by (simp add: v thread_at_Some_iff)
  have i: "in_single_shot_lambda L217"
    by simp
  from single_lambda_exec [OF t i, of acts] assms(4) have ?A and ?B
    by auto
  have c: ?C if h: ?H
  proof -
    from exec_mode_independent [OF t i h, of "m_is_single_shot (heap ?v this)"]
    show ?thesis
      by (simp only: mode_write_same assms(4))
  qed
  have d: ?D if h: ?H and k: ?K
  proof -
    from c [OF h] obtain b where b: "w' = is_single_shot_write this b
        (exec (filter (\<lambda>a. a = Step n) acts) ?v)"
      by blast
    have "exec (filter (\<lambda>a. a = Step n) acts) ?v =
        w\<lparr>threads := threads w @ [(this, Exited)],
          trace := trace w @ [(n, Sleep_for (m_ms_delay (heap w this))),
                              (n, Call (m_function (heap w this)))]\<rparr>"
      by (simp only: filter_steps single_shot_run [OF assms(1,2,3) k])
    with b assms(1,3) show ?thesis
      by (simp add: is_single_shot_write_def thread_at_Some_iff)
  qed
  have ?E
    by (simp add: lambda_step_mode)
  moreover have ?F
    by simp
  ultimately show ?thesis
    using \<open>?A\<close> \<open>?B\<close> c d by blast
qed

theorem single_shot_ignores_mode_witness:
  "m_stopped (heap single_world 0) \<and> m_is_single_shot (heap single_world 0)
   \<and> (0::nat) = length (threads single_world)
   \<and> set flipping_schedule \<subseteq> {Step 0, Set_single_shot 0 True, Set_single_shot 0 False}
   \<and> 6 \<le> count_list flipping_schedule (Step 0)
   \<and> thread_at 0 (exec flipping_schedule (snd (start 0 single_world))) = Some (0, Exited)
   \<and> m_stopped (heap (exec flipping_schedule (snd (start 0 single_world))) 0)
   \<and> \<not> m_is_single_shot (heap (exec flipping_schedule (snd (start 0 single_world))) 0)
   \<and> trace (exec flipping_schedule (snd (start 0 single_world))) =
        [(0, Sleep_for 50), (0, Call ''A'')]
   \<and> length (calls_of 0 (new_trace (snd (start 0 single_world))
        (exec flipping_schedule (snd (start 0 single_world))))) \<le> 1"
  using single_shot_ignores_mode [of single_world 0 0
      "exec flipping_schedule (snd (start 0 single_world))" flipping_schedule]
  by (simp add: flipping_schedule_def eval_defs)

end
